theory Spec2Isabelle
  imports Main "HOL-Library.Sublist" "HOL-Library.AList"
begin

section \<open>Python string primitives used by patch-finder.py\<close>

text \<open>
  The script is Python 2 (it calls \<^verbatim>\<open>urllib.quote\<close> and \<^verbatim>\<open>iteritems\<close>); a mail read
  back from the cache is a byte string (\<^verbatim>\<open>str\<close>), which is what \<^typ>\<open>string\<close> models:
  one \<^typ>\<open>char\<close> per byte. The string methods below are those of \<^verbatim>\<open>str\<close>. (On a cache
  miss the mail is a \<^verbatim>\<open>unicode\<close> object, whose \<^verbatim>\<open>splitlines\<close> and \<^verbatim>\<open>rstrip\<close> know a few
  more separators and blanks; the code under study is the same.)

  Exceptions are values: a function that may raise returns \<open>error + 'a\<close>, with \<open>Inl\<close> for
  the exception. Python's None is \<open>None\<close> of an option type.
\<close>

datatype error = AttributeError | IndexError | KeyError | TypeError

definition LF :: char where
  "LF = CHR 0x0A"

definition CR :: char where
  "CR = CHR 0x0D"

text \<open>
  \<^verbatim>\<open>str.splitlines()\<close> of a Python 2 byte string: a line ends at \<^verbatim>\<open>\n\<close>, at \<^verbatim>\<open>\r\<close> or at
  \<^verbatim>\<open>\r\n\<close>; the line ends are dropped; no empty last line is produced after a final
  line end. \<open>cur\<close> is the line read so far.
\<close>

fun split_acc :: "string \<Rightarrow> string \<Rightarrow> string list" where
  "split_acc cur [] = (if cur = [] then [] else [cur])"
| "split_acc cur [c] = (if c = LF \<or> c = CR then [cur] else [cur @ [c]])"
| "split_acc cur (c # d # cs) =
     (if c = CR \<and> d = LF then cur # split_acc [] cs
      else if c = LF \<or> c = CR then cur # split_acc [] (d # cs)
      else split_acc (cur @ [c]) (d # cs))"

definition splitlines :: "string \<Rightarrow> string list" where
  "splitlines s = split_acc [] s"

text \<open>\<^verbatim>\<open>s.startswith(p)\<close> and \<^verbatim>\<open>s.endswith(p)\<close>.\<close>

definition startswith :: "string \<Rightarrow> string \<Rightarrow> bool" where
  "startswith s p = prefix p s"

definition endswith :: "string \<Rightarrow> string \<Rightarrow> bool" where
  "endswith s p = suffix p s"

text \<open>
  \<^verbatim>\<open>str.rstrip()\<close> without argument removes the trailing whitespace bytes: space, tab,
  newline, vertical tab, form feed and carriage return.
\<close>

definition isspace :: "char \<Rightarrow> bool" where
  "isspace c = (c = CHR '' '' \<or> c = CHR 0x09 \<or> c = CHR 0x0A \<or> c = CHR 0x0B
                \<or> c = CHR 0x0C \<or> c = CHR 0x0D)"

definition rstrip :: "string \<Rightarrow> string" where
  "rstrip s = rev (dropWhile isspace (rev s))"

text \<open>\<^verbatim>\<open>line[0]\<close>: IndexError on the empty string.\<close>

fun index0 :: "string \<Rightarrow> error + char" where
  "index0 [] = Inl IndexError"
| "index0 (c # cs) = Inr c"

text \<open>\<^verbatim>\<open>patch += s\<close> where \<open>patch\<close> may still be None: TypeError then.\<close>

fun iadd :: "string option \<Rightarrow> string \<Rightarrow> error + string option" where
  "iadd None s = Inl TypeError"
| "iadd (Some p) s = Inr (Some (p @ s))"

text \<open>\<^verbatim>\<open>patch.rstrip()\<close> where \<open>patch\<close> may still be None: AttributeError then.\<close>

fun rstrip_obj :: "string option \<Rightarrow> error + string" where
  "rstrip_obj None = Inl AttributeError"
| "rstrip_obj (Some p) = Inr (rstrip p)"

section \<open>The two regular expressions of scrape_html_mail\<close>

text \<open>
  Both patterns have the shape: a literal, one greedy repetition of a character class,
  a literal. \<^verbatim>\<open>re.match\<close> anchors the pattern at the start of the line only. The greedy
  repetition first takes the longest run of class characters and then gives characters
  back one at a time until the closing literal follows; \<open>backtrack\<close> is that search, from
  \<open>k\<close> repeated characters downwards, with at least \<open>m\<close> of them.
\<close>

primrec backtrack :: "string \<Rightarrow> string \<Rightarrow> nat \<Rightarrow> nat \<Rightarrow> string option" where
  "backtrack post rest m 0 = (if m = 0 \<and> prefix post rest then Some [] else None)"
| "backtrack post rest m (Suc j) =
     (if Suc j < m then None
      else if prefix post (drop (Suc j) rest) then Some (take (Suc j) rest)
      else backtrack post rest m j)"

definition re_match_group ::
  "string \<Rightarrow> (char \<Rightarrow> bool) \<Rightarrow> nat \<Rightarrow> string \<Rightarrow> string \<Rightarrow> string option" where
  "re_match_group pre cls m post line =
     (if prefix pre line
      then let rest = drop (length pre) line
           in backtrack post rest m (length (takeWhile cls rest))
      else None)"

text \<open>\<^verbatim>\<open>.\<close> matches every character but the newline.\<close>

definition dot_class :: "char \<Rightarrow> bool" where
  "dot_class c = (c \<noteq> LF)"

text \<open>
  \<^verbatim>\<open>[A-za-z-]\<close> as the source writes it: the range from \<^verbatim>\<open>A\<close> (65) to lower-case \<^verbatim>\<open>z\<close>
  (122), the range \<^verbatim>\<open>a-z\<close>, and the hyphen.
\<close>

definition name_class :: "char \<Rightarrow> bool" where
  "name_class c = ((65 \<le> (of_char c :: nat) \<and> (of_char c :: nat) \<le> 122)
                  \<or> (97 \<le> (of_char c :: nat) \<and> (of_char c :: nat) \<le> 122)
                  \<or> c = CHR ''-'')"

text \<open>\<^verbatim>\<open>re.match('<!--X-Subject: (.*) -->', line)\<close>, giving group 1.\<close>

definition match_subject :: "string \<Rightarrow> string option" where
  "match_subject line = re_match_group ''<!--X-Subject: '' dot_class 0 '' -->'' line"

text \<open>\<^verbatim>\<open>re.match('<!--X-([A-za-z-]+)-->', line)\<close>, giving group 1.\<close>

definition match_section :: "string \<Rightarrow> string option" where
  "match_section line = re_match_group ''<!--X-'' name_class 1 ''-->'' line"

section \<open>MHonArcScraper.scrape_html_mail\<close>

text \<open>
  The loop variables. \<open>subdivisions\<close> is the OrderedDict: an association list in
  insertion order, where assigning to an existing key keeps the key's position.
\<close>

record seg_state =
  state :: string
  subdivisions :: "(string \<times> string) list"
  subject :: "string option"

definition seg_init :: seg_state where
  "seg_init = \<lparr>state = ''preamble'', subdivisions = [(''preamble'', [])], subject = None\<rparr>"

text \<open>One iteration of the loop over the lines.\<close>

definition seg_step :: "seg_state \<Rightarrow> string \<Rightarrow> error + seg_state" where
  "seg_step s line =
     (case match_subject line of
        Some v \<Rightarrow> Inr (s\<lparr>subject := Some v\<rparr>)
      | None \<Rightarrow>
         (case match_section line of
            Some n \<Rightarrow> Inr (s\<lparr>state := n, subdivisions := AList.update n [] (subdivisions s)\<rparr>)
          | None \<Rightarrow>
             (case map_of (subdivisions s) (state s) of
                None \<Rightarrow> Inl KeyError
              | Some v \<Rightarrow>
                 Inr (s\<lparr>subdivisions :=
                          AList.update (state s) (v @ line @ [LF]) (subdivisions s)\<rparr>))))"

fun seg_loop :: "seg_state \<Rightarrow> string list \<Rightarrow> error + seg_state" where
  "seg_loop s [] = Inr s"
| "seg_loop s (line # ls) =
     (case seg_step s line of Inl e \<Rightarrow> Inl e | Inr s' \<Rightarrow> seg_loop s' ls)"

text \<open>The segmentation proper: the state after the loop.\<close>

definition segment :: "string \<Rightarrow> error + seg_state" where
  "segment html_mail = seg_loop seg_init (splitlines html_mail)"

definition PREFIX :: string where
  "PREFIX = ''<PRE>'' @ [LF]"

definition SUFFIX :: string where
  "SUFFIX = [LF] @ ''</PRE>'' @ [LF, LF]"

text \<open>
  The stripping of the wrapper, on a body that is a string. The slice
  \<^verbatim>\<open>body[:len(body) - len(SUFFIX)]\<close> is taken only when the body ends with SUFFIX, so the
  bound is not negative.
\<close>

definition strip_wrapper :: "string \<Rightarrow> string" where
  "strip_wrapper body =
     (let body1 = (if startswith body PREFIX then drop (length PREFIX) body else body)
      in if endswith body1 SUFFIX then take (length body1 - length SUFFIX) body1 else body1)"

text \<open>
  \<^verbatim>\<open>subdivisions.get('Body-of-Message')\<close> is None when the key is missing, and
  \<^verbatim>\<open>body.startswith\<close> on None raises AttributeError.
\<close>

definition scrape_html_mail :: "string \<Rightarrow> error + (string option \<times> string)" where
  "scrape_html_mail html_mail =
     (case segment html_mail of
        Inl e \<Rightarrow> Inl e
      | Inr s \<Rightarrow>
         (case map_of (subdivisions s) ''Body-of-Message'' of
            None \<Rightarrow> Inl AttributeError
          | Some body \<Rightarrow> Inr (subject s, strip_wrapper body)))"

section \<open>extract_patch\<close>

text \<open>
  The loop over the lines of the body, with the two loop variables. The result is the
  returned value (None when the function falls off its end) or the exception raised.
\<close>

fun extract_loop :: "bool \<Rightarrow> string option \<Rightarrow> string list \<Rightarrow> error + string option" where
  "extract_loop within_patch patch [] = (if within_patch then Inr patch else Inr None)"
| "extract_loop within_patch patch (line # ls) =
     (if within_patch then
        (if line = [] then
           (case iadd patch [LF] of
              Inl e \<Rightarrow> Inl e
            | Inr patch' \<Rightarrow> extract_loop within_patch patch' ls)
         else
           (case index0 line of
              Inl e \<Rightarrow> Inl e
            | Inr c \<Rightarrow>
               if c \<notin> set ''-+@ '' then
                 (case rstrip_obj patch of
                    Inl e \<Rightarrow> Inl e
                  | Inr t \<Rightarrow> Inr (Some (t @ [LF])))
               else
                 (case iadd patch (line @ [LF]) of
                    Inl e \<Rightarrow> Inl e
                  | Inr patch' \<Rightarrow> extract_loop within_patch patch' ls)))
      else if startswith line ''--- '' then extract_loop True (Some (line @ [LF])) ls
      else extract_loop within_patch patch ls)"

definition extract_patch :: "string \<Rightarrow> error + string option" where
  "extract_patch body = extract_loop False None (splitlines body)"

text \<open>The text a list of lines accumulates to: each line followed by a newline.\<close>

definition joinlines :: "string list \<Rightarrow> string" where
  "joinlines ls = concat (map (\<lambda>l. l @ [LF]) ls)"

text \<open>
  The lines that extract_patch keeps while it is within a patch: the blank line, and the
  line whose first character is one of \<^verbatim>\<open>-\<close>, \<^verbatim>\<open>+\<close>, \<^verbatim>\<open>@\<close> and the space.
\<close>

definition patch_line :: "string \<Rightarrow> bool" where
  "patch_line l = (l = [] \<or> hd l \<in> set ''-+@ '')"

text \<open>A line as splitlines gives it: without newline and carriage return.\<close>

definition brkfree :: "string \<Rightarrow> bool" where
  "brkfree l = (\<forall>c\<in>set l. c \<noteq> LF \<and> c \<noteq> CR)"

section \<open>Auxiliary notions for the statements\<close>

text \<open>
  The section name a line switches to, as the loop sees it: the subject pattern is tried
  first, and a line it matches is not tried against the section pattern.
\<close>

definition section_of :: "string \<Rightarrow> string option" where
  "section_of line = (case match_subject line of Some v \<Rightarrow> None | None \<Rightarrow> match_section line)"

text \<open>The text of a section after a segmentation, None when there is no such section.\<close>

definition section_text :: "error + seg_state \<Rightarrow> string \<Rightarrow> string option" where
  "section_text r n = (case r of Inl e \<Rightarrow> None | Inr s \<Rightarrow> map_of (subdivisions s) n)"

text \<open>
  The specification's reading of the markers, for comparison with the code. A section name
  is made of letters and the hyphen: the class \<^verbatim>\<open>[A-Za-z-]\<close>.
\<close>

definition spec_name_class :: "char \<Rightarrow> bool" where
  "spec_name_class c = ((65 \<le> (of_char c :: nat) \<and> (of_char c :: nat) \<le> 90)
                       \<or> (97 \<le> (of_char c :: nat) \<and> (of_char c :: nat) \<le> 122)
                       \<or> c = CHR ''-'')"

text \<open>
  A section marker in the specification's sense is a whole line: \<^verbatim>\<open><!--X-\<close>, a non-empty
  name of that class, \<^verbatim>\<open>-->\<close>, and nothing else.
\<close>

definition spec_section_line :: "string \<Rightarrow> bool" where
  "spec_section_line line =
     (prefix ''<!--X-'' line \<and> suffix ''-->'' line \<and> 9 < length line
      \<and> (\<forall>c\<in>set (take (length line - 9) (drop 6 line)). spec_name_class c))"

text \<open>
  The loop step as the specification words it: at a section marker the entry of the name
  is set to the empty text only if the name has no entry yet. Everything else is as in
  \<open>seg_step\<close>.
\<close>

definition spec_seg_step :: "seg_state \<Rightarrow> string \<Rightarrow> error + seg_state" where
  "spec_seg_step s line =
     (case match_subject line of
        Some v \<Rightarrow> Inr (s\<lparr>subject := Some v\<rparr>)
      | None \<Rightarrow>
         (case match_section line of
            Some n \<Rightarrow>
              Inr (s\<lparr>state := n,
                      subdivisions := (case map_of (subdivisions s) n of
                                         None \<Rightarrow> AList.update n [] (subdivisions s)
                                       | Some t \<Rightarrow> subdivisions s)\<rparr>)
          | None \<Rightarrow>
             (case map_of (subdivisions s) (state s) of
                None \<Rightarrow> Inl KeyError
              | Some v \<Rightarrow>
                 Inr (s\<lparr>subdivisions :=
                          AList.update (state s) (v @ line @ [LF]) (subdivisions s)\<rparr>))))"

fun spec_seg_loop :: "seg_state \<Rightarrow> string list \<Rightarrow> error + seg_state" where
  "spec_seg_loop s [] = Inr s"
| "spec_seg_loop s (line # ls) =
     (case spec_seg_step s line of Inl e \<Rightarrow> Inl e | Inr s' \<Rightarrow> spec_seg_loop s' ls)"

section \<open>Basic facts\<close>

lemma joinlines_Nil: "joinlines [] = []"
  by (simp add: joinlines_def)

lemma joinlines_Cons: "joinlines (l # ls) = l @ [LF] @ joinlines ls"
  by (simp add: joinlines_def)

lemma joinlines_snoc: "joinlines (xs @ [l]) = joinlines xs @ l @ [LF]"
  by (simp add: joinlines_def)

lemma index0_hd: "l \<noteq> [] \<Longrightarrow> index0 l = Inr (hd l)"
  by (cases l) simp_all



section \<open>The patch extractor as a two-state scan\<close>

lemma extract_loop_total:
  "(w \<longrightarrow> p \<noteq> None) \<Longrightarrow> \<exists>r. extract_loop w p ls = Inr r"
proof (induction ls arbitrary: w p)
  case Nil
  then show ?case by simp
next
  case (Cons line ls)
  show ?case
  proof (cases w)
    case True
    with Cons.prems obtain a where p: "p = Some a" by auto
    show ?thesis
    proof (cases "line = []")
      case blank: True
      have "\<exists>r. extract_loop True (Some (a @ [LF])) ls = Inr r"
        by (rule Cons.IH) simp
      with True p blank show ?thesis by simp
    next
      case nonblank: False
      have "\<exists>r. extract_loop True (Some (a @ line @ [LF])) ls = Inr r"
        by (rule Cons.IH) simp
      with True p nonblank show ?thesis by (simp add: index0_hd)
    qed
  next
    case False
    have a: "\<exists>r. extract_loop True (Some (line @ [LF])) ls = Inr r"
      by (rule Cons.IH) simp
    have b: "\<exists>r. extract_loop False p ls = Inr r"
      by (rule Cons.IH) simp
    from False a b show ?thesis by simp
  qed
qed

lemma extract_loop_newline:
  "(w \<longrightarrow> (\<exists>a. p = Some a \<and> a \<noteq> [] \<and> last a = LF)) \<Longrightarrow>
   extract_loop w p ls = Inr (Some q) \<Longrightarrow> q \<noteq> [] \<and> last q = LF"
proof (induction ls arbitrary: w p)
  case Nil
  then show ?case by (auto split: if_splits)
next
  case (Cons line ls)
  show ?case
  proof (cases w)
    case True
    with Cons.prems(1) obtain a where p: "p = Some a" by auto
    show ?thesis
    proof (cases "line = []")
      case blank: True
      from Cons.prems(2) True p blank
      have "extract_loop True (Some (a @ [LF])) ls = Inr (Some q)" by simp
      then show ?thesis by (rule Cons.IH [rotated]) simp
    next
      case nonblank: False
      show ?thesis
      proof (cases "hd line \<in> set ''-+@ ''")
        case kept: True
        from Cons.prems(2) True p nonblank kept
        have "extract_loop True (Some (a @ line @ [LF])) ls = Inr (Some q)"
          by (auto simp: index0_hd)
        then show ?thesis by (rule Cons.IH [rotated]) simp
      next
        case stop: False
        from Cons.prems(2) True p nonblank stop
        have "q = rstrip a @ [LF]" by (auto simp: index0_hd)
        then show ?thesis by simp
      qed
    qed
  next
    case False
    show ?thesis
    proof (cases "startswith line ''--- ''")
      case start: True
      from Cons.prems(2) False start
      have "extract_loop True (Some (line @ [LF])) ls = Inr (Some q)" by simp
      then show ?thesis by (rule Cons.IH [rotated]) simp
    next
      case nostart: False
      from Cons.prems(2) False nostart
      have "extract_loop False p ls = Inr (Some q)" by simp
      then show ?thesis by (rule Cons.IH [rotated]) simp
    qed
  qed
qed

lemma extract_loop_before:
  "\<forall>l\<in>set pre. \<not> startswith l ''--- '' \<Longrightarrow>
   extract_loop False p (pre @ rest) = extract_loop False p rest"
  by (induction pre) simp_all

lemma extract_loop_start:
  "startswith l ''--- '' \<Longrightarrow>
   extract_loop False p (l # rest) = extract_loop True (Some (l @ [LF])) rest"
  by simp

lemma extract_loop_within_step:
  "patch_line l \<Longrightarrow>
   extract_loop True (Some a) (l # rest) = extract_loop True (Some (a @ l @ [LF])) rest"
  by (cases l) (auto simp: patch_line_def)

lemma extract_loop_within_end:
  "\<forall>l\<in>set ks. patch_line l \<Longrightarrow>
   extract_loop True (Some a) ks = Inr (Some (a @ joinlines ks))"
proof (induction ks arbitrary: a)
  case Nil
  then show ?case by (simp add: joinlines_Nil)
next
  case (Cons l ks)
  then show ?case
    by (simp add: extract_loop_within_step joinlines_Cons del: extract_loop.simps)
qed

lemma extract_loop_within_stop:
  "\<forall>l\<in>set ks. patch_line l \<Longrightarrow> \<not> patch_line t \<Longrightarrow>
   extract_loop True (Some a) (ks @ t # rest) = Inr (Some (rstrip (a @ joinlines ks) @ [LF]))"
proof (induction ks arbitrary: a)
  case Nil
  then show ?case by (cases t) (auto simp: joinlines_Nil patch_line_def)
next
  case (Cons l ks)
  then show ?case
    by (simp add: extract_loop_within_step joinlines_Cons del: extract_loop.simps)
qed


section \<open>Claims about extract_patch\<close>

text \<open>
  C9: extract_patch is total. For every body it returns a value (a patch or None) and
  raises nothing: \<^verbatim>\<open>line[0]\<close> is reached only for a line that is not blank, and the
  accumulator is a string whenever the scan is within a patch.
\<close>

theorem extract_patch_total: "\<exists>r. extract_patch body = Inr r"
  unfolding extract_patch_def by (rule extract_loop_total) simp

theorem extract_patch_total_witness:
  "\<exists>r. extract_patch ''--- a\<newline>\<newline>+x\<newline>prose'' = Inr r"
  by (rule extract_patch_total)

text \<open>
  C10: a patch returned by extract_patch is never empty and ends with a newline, whether
  the patch was ended by a line of prose or by the end of the body.
\<close>

theorem extract_patch_ends_with_newline:
  "extract_patch body = Inr (Some p) \<Longrightarrow> p \<noteq> [] \<and> last p = LF"
  using extract_loop_newline [of False None "splitlines body" p]
  by (simp add: extract_patch_def)

theorem extract_patch_ends_with_newline_witness:
  "extract_patch ''--- a\<newline>+x \<newline>prose'' = Inr (Some ''--- a\<newline>+x\<newline>'')
   \<and> ''--- a\<newline>+x\<newline>'' \<noteq> [] \<and> last ''--- a\<newline>+x\<newline>'' = LF"
proof -
  have h: "extract_patch ''--- a\<newline>+x \<newline>prose'' = Inr (Some ''--- a\<newline>+x\<newline>'')"
    by code_simp
  from h extract_patch_ends_with_newline [OF h] show ?thesis by simp
qed

text \<open>
  C7: when the scan reaches the end of the body while within the patch, that is when the
  lines of the body are some lines that do not start the patch, a line starting with
  \<^verbatim>\<open>--- \<close>, and then only lines that the patch keeps, extract_patch returns the
  accumulated text as it is: every line from the starting line on, each followed by a
  newline, with no trailing whitespace removed.
\<close>

theorem extract_patch_end_of_body:
  assumes "splitlines body = pre @ start # ks"
    and "\<forall>l\<in>set pre. \<not> startswith l ''--- ''"
    and "startswith start ''--- ''"
    and "\<forall>l\<in>set ks. l = [] \<or> hd l \<in> set ''-+@ ''"
  shows "extract_patch body = Inr (Some (joinlines (start # ks)))"
proof -
  have ks: "\<forall>l\<in>set ks. patch_line l"
    using assms(4) by (simp add: patch_line_def)
  have "extract_patch body = extract_loop False None (start # ks)"
    using assms(1,2) by (simp add: extract_patch_def extract_loop_before)
  also have "\<dots> = extract_loop True (Some (start @ [LF])) ks"
    using assms(3) by (rule extract_loop_start)
  also have "\<dots> = Inr (Some ((start @ [LF]) @ joinlines ks))"
    using ks by (rule extract_loop_within_end)
  finally show ?thesis by (simp add: joinlines_Cons)
qed

theorem extract_patch_end_of_body_witness:
  "extract_patch ''intro\<newline>--- a\<newline>+x\<newline>\<newline>  \<newline>\<newline>'' = Inr (Some ''--- a\<newline>+x\<newline>\<newline>  \<newline>\<newline>'')"
proof -
  have 1: "splitlines ''intro\<newline>--- a\<newline>+x\<newline>\<newline>  \<newline>\<newline>'' = [''intro''] @ ''--- a'' # [''+x'', '''', ''  '', '''']"
    by code_simp
  have 2: "\<forall>l\<in>set [''intro'']. \<not> startswith l ''--- ''"
    by (simp add: startswith_def)
  have 3: "startswith ''--- a'' ''--- ''"
    by (simp add: startswith_def)
  have 4: "\<forall>l\<in>set [''+x'', '''', ''  '', '''']. l = [] \<or> hd l \<in> set ''-+@ ''"
    by simp
  show ?thesis
    using extract_patch_end_of_body [OF 1 2 3 4] by (simp add: joinlines_def LF_def)
qed



section \<open>Lines and their text\<close>

lemma LF_neq_CR: "LF \<noteq> CR"
  by (simp add: LF_def CR_def)

lemma split_acc_LF: "split_acc cur (LF # rest) = cur # split_acc [] rest"
  by (cases rest) (simp_all add: LF_neq_CR)

lemma split_acc_line:
  "brkfree l \<Longrightarrow> split_acc cur (l @ LF # rest) = (cur @ l) # split_acc [] rest"
proof (induction l arbitrary: cur)
  case Nil
  show ?case by (simp add: split_acc_LF)
next
  case (Cons c l)
  obtain d cs where dcs: "l @ LF # rest = d # cs"
    by (cases l) auto
  from Cons.prems have c: "c \<noteq> LF" "c \<noteq> CR" and l: "brkfree l"
    by (simp_all add: brkfree_def)
  have "split_acc cur ((c # l) @ LF # rest) = split_acc (cur @ [c]) (l @ LF # rest)"
    using c by (simp add: dcs)
  also have "\<dots> = ((cur @ [c]) @ l) # split_acc [] rest"
    using l by (rule Cons.IH)
  finally show ?case by simp
qed

lemma splitlines_joinlines:
  "\<forall>l\<in>set ls. brkfree l \<Longrightarrow> splitlines (joinlines ls) = ls"
proof (induction ls)
  case Nil
  show ?case by (simp add: splitlines_def joinlines_def)
next
  case (Cons l ls)
  then have "split_acc [] (l @ LF # joinlines ls) = ([] @ l) # split_acc [] (joinlines ls)"
    by (intro split_acc_line) simp
  with Cons show ?case
    by (simp add: splitlines_def joinlines_def)
qed

lemma split_acc_brkfree:
  "brkfree cur \<Longrightarrow> \<forall>l\<in>set (split_acc cur s). brkfree l"
proof (induction cur s rule: split_acc.induct)
  case (1 cur)
  then show ?case by simp
next
  case (2 cur c)
  then show ?case by (simp add: brkfree_def)
next
  case (3 cur c d cs)
  have e: "brkfree []" by (simp add: brkfree_def)
  show ?case
  proof (cases "c = CR \<and> d = LF")
    case True
    with 3 e show ?thesis by simp
  next
    case False
    show ?thesis
    proof (cases "c = LF \<or> c = CR")
      case True
      with False 3 e show ?thesis by simp
    next
      case nb: False
      with 3(4) have "brkfree (cur @ [c])" by (simp add: brkfree_def)
      with False nb 3 show ?thesis by simp
    qed
  qed
qed

lemma splitlines_brkfree: "\<forall>l\<in>set (splitlines s). brkfree l"
  unfolding splitlines_def by (rule split_acc_brkfree) (simp add: brkfree_def)




lemma rstrip_append:
  "rstrip (x @ y) = (if rstrip y = [] then rstrip x else x @ rstrip y)"
  by (auto simp: rstrip_def dropWhile_append dropWhile_eq_Nil_conv)

lemma rstrip_LF: "rstrip (x @ [LF]) = rstrip x"
  by (simp add: rstrip_def isspace_def LF_def)

lemma rstrip_decomp: "\<exists>w. l = rstrip l @ w"
proof -
  have "rstrip l @ rev (takeWhile isspace (rev l))
      = rev (takeWhile isspace (rev l) @ dropWhile isspace (rev l))"
    by (simp only: rstrip_def rev_append)
  also have "\<dots> = l"
    by simp
  finally have "l = rstrip l @ rev (takeWhile isspace (rev l))"
    by (rule sym)
  then show ?thesis ..
qed

lemma rstrip_brkfree: "brkfree l \<Longrightarrow> brkfree (rstrip l)"
proof -
  assume a: "brkfree l"
  obtain w where "l = rstrip l @ w" using rstrip_decomp by blast
  then have "set (rstrip l) \<subseteq> set l" by (metis set_append Un_upper1)
  with a show ?thesis by (auto simp: brkfree_def)
qed

lemma rstrip_patch_line: "patch_line l \<Longrightarrow> rstrip l \<noteq> [] \<Longrightarrow> patch_line (rstrip l)"
proof -
  assume a: "patch_line l" and ne: "rstrip l \<noteq> []"
  obtain w where w: "l = rstrip l @ w" using rstrip_decomp by blast
  with ne have "hd l = hd (rstrip l)" by (metis hd_append2)
  moreover from w ne have "l \<noteq> []" by auto
  ultimately show ?thesis using a by (simp add: patch_line_def)
qed

lemma rstrip_joinlines:
  "rstrip (joinlines ls) \<noteq> [] \<Longrightarrow>
   \<exists>ks l. set ks \<subseteq> set ls \<and> l \<in> set ls \<and> rstrip l \<noteq> []
          \<and> rstrip (joinlines ls) @ [LF] = joinlines (ks @ [rstrip l])"
proof (induction ls rule: rev_induct)
  case Nil
  then show ?case by (simp add: joinlines_Nil rstrip_def)
next
  case (snoc x xs)
  have eq: "rstrip (joinlines (xs @ [x])) =
      (if rstrip x = [] then rstrip (joinlines xs) else joinlines xs @ rstrip x)"
    using rstrip_append [of "joinlines xs" "x @ [LF]"]
    by (simp add: joinlines_snoc rstrip_LF)
  show ?case
  proof (cases "rstrip x = []")
    case True
    with eq snoc.prems have "rstrip (joinlines xs) \<noteq> []" by simp
    then obtain ks l where "set ks \<subseteq> set xs" "l \<in> set xs" "rstrip l \<noteq> []"
        "rstrip (joinlines xs) @ [LF] = joinlines (ks @ [rstrip l])"
      using snoc.IH by blast
    with True eq show ?thesis by auto
  next
    case False
    with eq have "rstrip (joinlines (xs @ [x])) @ [LF] = joinlines (xs @ [rstrip x])"
      by (simp add: joinlines_snoc)
    with False show ?thesis by auto
  qed
qed

lemma extract_within_lines:
  "\<forall>l\<in>set L0. patch_line l \<Longrightarrow> L0 \<noteq> [] \<Longrightarrow>
   extract_loop True (Some (joinlines L0)) ls = Inr (Some p) \<Longrightarrow>
   \<exists>L. L \<noteq> [] \<and> set L \<subseteq> set L0 \<union> set ls \<and> (\<forall>l\<in>set L. patch_line l)
       \<and> (p = joinlines L \<or> p = rstrip (joinlines L) @ [LF])"
proof (induction ls arbitrary: L0)
  case Nil
  then show ?case by auto
next
  case (Cons l ls)
  show ?case
  proof (cases "patch_line l")
    case True
    have "extract_loop True (Some (joinlines (L0 @ [l]))) ls = Inr (Some p)"
      using Cons.prems(3) True
      by (simp add: extract_loop_within_step joinlines_snoc del: extract_loop.simps)
    moreover have "\<forall>k\<in>set (L0 @ [l]). patch_line k"
      using Cons.prems(1) True by simp
    ultimately obtain L where "L \<noteq> []" "set L \<subseteq> set (L0 @ [l]) \<union> set ls"
        "\<forall>l\<in>set L. patch_line l" "p = joinlines L \<or> p = rstrip (joinlines L) @ [LF]"
      using Cons.IH [of "L0 @ [l]"] by blast
    then show ?thesis by (intro exI [of _ L]) auto
  next
    case False
    have "extract_loop True (Some (joinlines L0)) ([] @ l # ls)
        = Inr (Some (rstrip (joinlines L0 @ joinlines []) @ [LF]))"
      by (rule extract_loop_within_stop) (use False in simp_all)
    with Cons.prems(3) have "p = rstrip (joinlines L0) @ [LF]"
      by (simp add: joinlines_Nil del: extract_loop.simps)
    with Cons.prems(1,2) show ?thesis by (intro exI [of _ L0]) auto
  qed
qed

lemma startswith_patch_line: "startswith l ''--- '' \<Longrightarrow> patch_line l"
  by (cases l) (auto simp: startswith_def patch_line_def)

lemma extract_before_lines:
  "extract_loop False None ls = Inr (Some p) \<Longrightarrow>
   \<exists>L. L \<noteq> [] \<and> set L \<subseteq> set ls \<and> (\<forall>l\<in>set L. patch_line l)
       \<and> (p = joinlines L \<or> p = rstrip (joinlines L) @ [LF])"
proof (induction ls)
  case Nil
  then show ?case by simp
next
  case (Cons l ls)
  show ?case
  proof (cases "startswith l ''--- ''")
    case True
    with Cons.prems have "extract_loop True (Some (joinlines [l])) ls = Inr (Some p)"
      by (simp add: joinlines_def)
    moreover have "\<forall>k\<in>set [l]. patch_line k"
      using True by (simp add: startswith_patch_line)
    ultimately obtain L where "L \<noteq> []" "set L \<subseteq> set [l] \<union> set ls"
        "\<forall>l\<in>set L. patch_line l" "p = joinlines L \<or> p = rstrip (joinlines L) @ [LF]"
      using extract_within_lines [of "[l]" ls p] by blast
    then show ?thesis by (intro exI [of _ L]) auto
  next
    case False
    with Cons.prems have "extract_loop False None ls = Inr (Some p)" by simp
    then obtain L where "L \<noteq> []" "set L \<subseteq> set ls"
        "\<forall>l\<in>set L. patch_line l" "p = joinlines L \<or> p = rstrip (joinlines L) @ [LF]"
      using Cons.IH by blast
    then show ?thesis by (intro exI [of _ L]) auto
  qed
qed

lemma startswith_first_line:
  assumes "startswith (m @ LF # r) ''--- ''"
  shows "startswith m ''--- ''"
proof -
  from assms have "prefix ''--- '' m \<or> (\<exists>us. ''--- '' = m @ us \<and> prefix us (LF # r))"
    by (simp add: startswith_def prefix_append)
  then show ?thesis
  proof
    assume "prefix ''--- '' m"
    then show ?thesis by (simp add: startswith_def)
  next
    assume "\<exists>us. ''--- '' = m @ us \<and> prefix us (LF # r)"
    then obtain us where us: "''--- '' = m @ us" "prefix us (LF # r)" by blast
    show ?thesis
    proof (cases us)
      case Nil
      with us show ?thesis by (simp add: startswith_def)
    next
      case (Cons u us')
      with us(2) have "u = LF" by simp
      with us(1) Cons have "LF \<in> set ''--- ''" by (metis in_set_conv_decomp)
      then show ?thesis by (simp add: LF_def)
    qed
  qed
qed

lemma extract_patch_joinlines:
  assumes "M \<noteq> []" and "\<forall>l\<in>set M. brkfree l" and "\<forall>l\<in>set M. patch_line l"
    and "startswith (joinlines M) ''--- ''"
  shows "extract_patch (joinlines M) = Inr (Some (joinlines M))"
proof -
  from assms(1) obtain m ms where M: "M = m # ms" by (cases M) auto
  have s: "startswith m ''--- ''"
    using assms(4) by (simp add: M joinlines_Cons startswith_first_line)
  have "extract_patch (joinlines M) = extract_loop False None (m # ms)"
    using assms(2) by (simp add: extract_patch_def splitlines_joinlines M)
  also have "\<dots> = extract_loop True (Some (m @ [LF])) ms"
    using s by (rule extract_loop_start)
  also have "\<dots> = Inr (Some ((m @ [LF]) @ joinlines ms))"
    by (rule extract_loop_within_end) (use assms(3) M in simp)
  finally show ?thesis by (simp add: M joinlines_Cons)
qed

section \<open>Idempotence of extract_patch\<close>

text \<open>
  C6 (as amended): extraction is idempotent on every returned patch that starts with
  \<^verbatim>\<open>--- \<close>: extracting from such a patch returns the patch itself.
\<close>

theorem extract_patch_idempotent:
  assumes "extract_patch body = Inr (Some p)" and "startswith p ''--- ''"
  shows "extract_patch p = Inr (Some p)"
proof -
  from assms(1) obtain L where L: "L \<noteq> []" "set L \<subseteq> set (splitlines body)"
      "\<forall>l\<in>set L. patch_line l" "p = joinlines L \<or> p = rstrip (joinlines L) @ [LF]"
    using extract_before_lines [of "splitlines body" p] by (auto simp: extract_patch_def)
  have bf: "\<forall>l\<in>set L. brkfree l"
    using L(2) splitlines_brkfree [of body] by blast
  from L(4) show ?thesis
  proof
    assume p: "p = joinlines L"
    show ?thesis
      unfolding p by (rule extract_patch_joinlines) (use L bf assms(2) p in simp_all)
  next
    assume p: "p = rstrip (joinlines L) @ [LF]"
    have "rstrip (joinlines L) \<noteq> []"
    proof
      assume "rstrip (joinlines L) = []"
      with p assms(2) show False by (simp add: startswith_def LF_def)
    qed
    then obtain ks l where kl: "set ks \<subseteq> set L" "l \<in> set L" "rstrip l \<noteq> []"
        "rstrip (joinlines L) @ [LF] = joinlines (ks @ [rstrip l])"
      using rstrip_joinlines by blast
    have p': "p = joinlines (ks @ [rstrip l])"
      using p kl(4) by simp
    have 1: "\<forall>k\<in>set (ks @ [rstrip l]). brkfree k"
      using kl(1,2) bf by (auto simp: rstrip_brkfree)
    have 2: "\<forall>k\<in>set (ks @ [rstrip l]). patch_line k"
      using kl(1,2,3) L(3) by (auto simp: rstrip_patch_line)
    show ?thesis
      unfolding p' by (rule extract_patch_joinlines) (use 1 2 assms(2) p' in simp_all)
  qed
qed

theorem extract_patch_idempotent_witness:
  "extract_patch ''intro\<newline>--- a\<newline>+x\<newline> \<newline>prose'' = Inr (Some ''--- a\<newline>+x\<newline>'')
   \<and> startswith ''--- a\<newline>+x\<newline>'' ''--- ''
   \<and> extract_patch ''--- a\<newline>+x\<newline>'' = Inr (Some ''--- a\<newline>+x\<newline>'')"
proof -
  have 1: "extract_patch ''intro\<newline>--- a\<newline>+x\<newline> \<newline>prose'' = Inr (Some ''--- a\<newline>+x\<newline>'')"
    by code_simp
  have 2: "startswith ''--- a\<newline>+x\<newline>'' ''--- ''"
    by (simp add: startswith_def)
  from 1 2 extract_patch_idempotent [OF 1 2] show ?thesis by simp
qed

text \<open>
  C6 as stated fails: a returned patch need not start with \<^verbatim>\<open>--- \<close>. When the starting
  line is \<^verbatim>\<open>--- \<close> alone and a line of prose follows, the trimming removes the space, the
  patch is \<^verbatim>\<open>---\<close> and a newline, and extraction from that patch returns None.
\<close>

theorem extract_patch_idempotent_counterexample:
  "extract_patch ''--- \<newline>prose'' = Inr (Some ''---\<newline>'')
   \<and> extract_patch ''---\<newline>'' = Inr None
   \<and> \<not> startswith ''---\<newline>'' ''--- ''"
  by code_simp

section \<open>What the two patterns match\<close>


















section \<open>The segmentation loop\<close>

lemma seg_step_section:
  "section_of line = Some n \<Longrightarrow>
   seg_step s line = Inr (s\<lparr>state := n, subdivisions := AList.update n [] (subdivisions s)\<rparr>)"
  by (auto simp: section_of_def seg_step_def split: option.splits)

lemma seg_step_subject:
  "match_subject line = Some v \<Longrightarrow> seg_step s line = Inr (s\<lparr>subject := Some v\<rparr>)"
  by (simp add: seg_step_def)

lemma seg_step_text:
  "match_subject line = None \<Longrightarrow> match_section line = None \<Longrightarrow>
   map_of (subdivisions s) (state s) = Some t \<Longrightarrow>
   seg_step s line =
     Inr (s\<lparr>subdivisions := AList.update (state s) (t @ line @ [LF]) (subdivisions s)\<rparr>)"
  by (simp add: seg_step_def)

lemma seg_loop_append:
  "seg_loop s (xs @ ys) = (case seg_loop s xs of Inl e \<Rightarrow> Inl e | Inr s' \<Rightarrow> seg_loop s' ys)"
  by (induction xs arbitrary: s) (auto split: sum.splits)

lemma seg_step_total:
  assumes "map_of (subdivisions s) (state s) \<noteq> None"
  shows "\<exists>s'. seg_step s line = Inr s' \<and> map_of (subdivisions s') (state s') \<noteq> None"
  using assms
  by (auto simp: seg_step_def AList.update_conv' split: option.splits)

lemma seg_loop_total:
  "map_of (subdivisions s) (state s) \<noteq> None \<Longrightarrow>
   \<exists>s'. seg_loop s ls = Inr s' \<and> map_of (subdivisions s') (state s') \<noteq> None"
proof (induction ls arbitrary: s)
  case Nil
  then show ?case by simp
next
  case (Cons l ls)
  from seg_step_total [OF Cons.prems, of l]
  obtain s1 where s1: "seg_step s l = Inr s1" "map_of (subdivisions s1) (state s1) \<noteq> None"
    by blast
  from Cons.IH [OF s1(2)] s1(1) show ?case by simp
qed


lemma seg_loop_in_section:
  "\<forall>l\<in>set mid. section_of l = None \<Longrightarrow>
   map_of (subdivisions s) (state s) = Some v \<Longrightarrow>
   \<exists>s'. seg_loop s mid = Inr s' \<and> state s' = state s
       \<and> map_of (subdivisions s') (state s)
          = Some (v @ joinlines (filter (\<lambda>l. match_subject l = None) mid))"
proof (induction mid arbitrary: s v)
  case Nil
  then show ?case by (simp add: joinlines_def)
next
  case (Cons l mid)
  show ?case
  proof (cases "match_subject l")
    case None
    with Cons.prems(1) have ms: "match_section l = None"
      by (simp add: section_of_def)
    let ?s1 = "s\<lparr>subdivisions := AList.update (state s) (v @ l @ [LF]) (subdivisions s)\<rparr>"
    have st: "seg_step s l = Inr ?s1"
      using None ms Cons.prems(2) by (rule seg_step_text)
    have "map_of (subdivisions ?s1) (state ?s1) = Some (v @ l @ [LF])"
      by (simp add: AList.update_conv')
    from Cons.IH [OF _ this] Cons.prems(1)
    obtain s' where "seg_loop ?s1 mid = Inr s'" "state s' = state ?s1"
        "map_of (subdivisions s') (state ?s1)
          = Some ((v @ l @ [LF]) @ joinlines (filter (\<lambda>l. match_subject l = None) mid))"
      by auto
    with st None show ?thesis by (simp add: joinlines_def)
  next
    case (Some w)
    let ?s1 = "s\<lparr>subject := Some w\<rparr>"
    have st: "seg_step s l = Inr ?s1"
      using Some by (rule seg_step_subject)
    have "map_of (subdivisions ?s1) (state ?s1) = Some v"
      using Cons.prems(2) by simp
    from Cons.IH [OF _ this] Cons.prems(1)
    obtain s' where "seg_loop ?s1 mid = Inr s'" "state s' = state ?s1"
        "map_of (subdivisions s') (state ?s1)
          = Some (v @ joinlines (filter (\<lambda>l. match_subject l = None) mid))"
      by auto
    with st Some show ?thesis by simp
  qed
qed

lemma seg_step_other_section:
  assumes "state s \<noteq> n" and "map_of (subdivisions s) (state s) \<noteq> None"
    and "section_of l \<noteq> Some n"
  shows "\<exists>s'. seg_step s l = Inr s' \<and> state s' \<noteq> n
       \<and> map_of (subdivisions s') (state s') \<noteq> None
       \<and> map_of (subdivisions s') n = map_of (subdivisions s) n"
  using assms
  by (auto simp: seg_step_def section_of_def AList.update_conv' split: option.splits)

lemma seg_loop_other_sections:
  "state s \<noteq> n \<Longrightarrow> map_of (subdivisions s) (state s) \<noteq> None \<Longrightarrow>
   \<forall>l\<in>set post. section_of l \<noteq> Some n \<Longrightarrow>
   \<exists>s'. seg_loop s post = Inr s' \<and> map_of (subdivisions s') n = map_of (subdivisions s) n"
proof (induction post arbitrary: s)
  case Nil
  then show ?case by simp
next
  case (Cons l post)
  have "section_of l \<noteq> Some n" using Cons.prems(3) by simp
  with Cons.prems(1,2) obtain s1 where s1: "seg_step s l = Inr s1" "state s1 \<noteq> n"
      "map_of (subdivisions s1) (state s1) \<noteq> None"
      "map_of (subdivisions s1) n = map_of (subdivisions s) n"
    using seg_step_other_section by blast
  have "\<forall>l\<in>set post. section_of l \<noteq> Some n" using Cons.prems(3) by simp
  from Cons.IH [OF s1(2,3) this] s1(1,4) show ?case by auto
qed

lemma seg_init_ok: "map_of (subdivisions seg_init) (state seg_init) \<noteq> None"
  by (simp add: seg_init_def)

lemma segment_total: "\<exists>s. segment doc = Inr s"
  unfolding segment_def using seg_loop_total [OF seg_init_ok] by blast

lemma scrape_html_mail_without_body:
  "segment doc = Inr s \<Longrightarrow> map_of (subdivisions s) ''Body-of-Message'' = None \<Longrightarrow>
   scrape_html_mail doc = Inl AttributeError"
  by (simp add: scrape_html_mail_def)

lemma startswith_append: "startswith (p @ x) p"
  by (simp add: startswith_def)

lemma endswith_append: "endswith (x @ p) p"
  by (simp add: endswith_def suffix_def)

section \<open>Claims about scrape_html_mail\<close>

text \<open>
  C1: a document without a \<^verbatim>\<open>Body-of-Message\<close> section should give an absent body and no
  exception. The code looks the section up with \<^verbatim>\<open>get\<close>, which gives None, and then calls
  \<^verbatim>\<open>body.startswith\<close> on it: for the document below, which has a subject and a header
  section but no body section, scrape_html_mail raises AttributeError.
\<close>

theorem scrape_html_mail_no_body:
  "scrape_html_mail ''<!--X-Subject: hello -->\<newline><!--X-Head-of-Message-->\<newline>From: someone\<newline>'' = Inl AttributeError"
  by code_simp

text \<open>
  C2 (as amended): every section marker sets the entry of its name to the empty text,
  whether the name has an entry or not. So the text of a name after the segmentation is
  what was accumulated since the last marker of that name: the lines between that marker
  \<open>m\<close> and the next section marker, each followed by a newline, the subject lines left
  out.
\<close>

theorem segment_last_occurrence:
  assumes "splitlines doc = pre @ m # mid @ post"
    and "section_of m = Some n"
    and "\<forall>l\<in>set mid. section_of l = None"
    and "post = [] \<or> section_of (hd post) \<noteq> None"
    and "\<forall>l\<in>set post. section_of l \<noteq> Some n"
  shows "\<exists>s. segment doc = Inr s
       \<and> map_of (subdivisions s) n
          = Some (joinlines (filter (\<lambda>l. match_subject l = None) mid))"
proof -
  obtain s0 where s0: "seg_loop seg_init pre = Inr s0"
    using seg_loop_total [OF seg_init_ok] by blast
  let ?s1 = "s0\<lparr>state := n, subdivisions := AList.update n [] (subdivisions s0)\<rparr>"
  have s1: "seg_step s0 m = Inr ?s1"
    using assms(2) by (rule seg_step_section)
  have "map_of (subdivisions ?s1) (state ?s1) = Some []"
    by (simp add: AList.update_conv')
  from seg_loop_in_section [OF assms(3) this]
  obtain s2 where s2: "seg_loop ?s1 mid = Inr s2" "state s2 = n"
      "map_of (subdivisions s2) n = Some (joinlines (filter (\<lambda>l. match_subject l = None) mid))"
    by auto
  have "\<exists>s3. seg_loop s2 post = Inr s3 \<and> map_of (subdivisions s3) n = map_of (subdivisions s2) n"
  proof (cases post)
    case Nil
    then show ?thesis by simp
  next
    case (Cons h t)
    with assms(4,5) obtain n' where n': "section_of h = Some n'" "n' \<noteq> n"
      by auto
    let ?s3 = "s2\<lparr>state := n', subdivisions := AList.update n' [] (subdivisions s2)\<rparr>"
    have h: "seg_step s2 h = Inr ?s3"
      using n'(1) by (rule seg_step_section)
    have a: "state ?s3 \<noteq> n" using n'(2) by simp
    have b: "map_of (subdivisions ?s3) (state ?s3) \<noteq> None"
      by (simp add: AList.update_conv')
    have c: "\<forall>l\<in>set t. section_of l \<noteq> Some n"
      using assms(5) Cons by simp
    from seg_loop_other_sections [OF a b c]
    obtain s4 where "seg_loop ?s3 t = Inr s4" "map_of (subdivisions s4) n = map_of (subdivisions ?s3) n"
      by blast
    with h n'(2) Cons show ?thesis by (simp add: AList.update_conv')
  qed
  then obtain s3 where s3: "seg_loop s2 post = Inr s3"
      "map_of (subdivisions s3) n = map_of (subdivisions s2) n"
    by blast
  have "segment doc = seg_loop seg_init (pre @ (m # mid) @ post)"
    using assms(1) by (simp add: segment_def)
  also have "\<dots> = Inr s3"
    using s0 s1 s2(1) s3(1) by (simp add: seg_loop_append)
  finally show ?thesis using s3(2) s2(3) by simp
qed

theorem segment_last_occurrence_witness:
  "\<exists>s. segment ''<!--X-A-->\<newline>x\<newline><!--X-B-->\<newline>y\<newline><!--X-A-->\<newline><!--X-Subject: hi -->\<newline>z\<newline><!--X-C-->\<newline>w\<newline>'' = Inr s
     \<and> map_of (subdivisions s) ''A'' = Some ''z\<newline>''"
proof -
  have 1: "splitlines ''<!--X-A-->\<newline>x\<newline><!--X-B-->\<newline>y\<newline><!--X-A-->\<newline><!--X-Subject: hi -->\<newline>z\<newline><!--X-C-->\<newline>w\<newline>''
      = [''<!--X-A-->'', ''x'', ''<!--X-B-->'', ''y''] @ ''<!--X-A-->'' # [''<!--X-Subject: hi -->'', ''z''] @ [''<!--X-C-->'', ''w'']"
    by code_simp
  have 2: "section_of ''<!--X-A-->'' = Some ''A''"
    by code_simp
  have 3: "\<forall>l\<in>set [''<!--X-Subject: hi -->'', ''z'']. section_of l = None"
    by code_simp
  have 4: "[''<!--X-C-->'', ''w''] = [] \<or> section_of (hd [''<!--X-C-->'', ''w'']) \<noteq> None"
    by code_simp
  have 5: "\<forall>l\<in>set [''<!--X-C-->'', ''w'']. section_of l \<noteq> Some ''A''"
    by code_simp
  have 6: "joinlines (filter (\<lambda>l. match_subject l = None) [''<!--X-Subject: hi -->'', ''z'']) = ''z\<newline>''"
    by code_simp
  show ?thesis
    using segment_last_occurrence [OF 1 2 3 4 5] by (simp only: 6)
qed

text \<open>
  C2 as stated fails: in the document below the section \<^verbatim>\<open>A\<close> occurs twice, the line
  \<^verbatim>\<open>x\<close> is seen in its first occurrence and \<^verbatim>\<open>z\<close> in its second. The code maps \<^verbatim>\<open>A\<close> to
  the text of the second occurrence only; initialising the entry only when absent, as the
  claim words it, would give both lines.
\<close>

theorem segment_repeated_section_counterexample:
  "section_text (segment ''<!--X-A-->\<newline>x\<newline><!--X-B-->\<newline>y\<newline><!--X-A-->\<newline>z\<newline>'') ''A'' = Some ''z\<newline>''
   \<and> section_text (spec_seg_loop seg_init (splitlines ''<!--X-A-->\<newline>x\<newline><!--X-B-->\<newline>y\<newline><!--X-A-->\<newline>z\<newline>'')) ''A'' = Some ''x\<newline>z\<newline>''"
  by code_simp




text \<open>
  The class \<^verbatim>\<open>[A-za-z-]\<close> of the source, with \<^verbatim>\<open>A-z\<close> for \<^verbatim>\<open>A-Z\<close>, also admits the six
  characters between \<^verbatim>\<open>Z\<close> and \<^verbatim>\<open>a\<close>, the underscore among them.
\<close>

lemma name_class_slip:
  "section_of ''<!--X-Foo_Bar-->'' = Some ''Foo_Bar'' \<and> \<not> spec_section_line ''<!--X-Foo_Bar-->''"
  by code_simp




text \<open>
  C8 (as amended): the wrapper is stripped by exact match, the prefix first and the suffix
  on what is left then. A body starting with PREFIX loses exactly that prefix; the text
  left (the body itself when it does not start with PREFIX) loses exactly SUFFIX when it
  ends with SUFFIX, and is kept as it is otherwise. A body wrapped in both gives the inner
  text.
\<close>

theorem strip_wrapper_exact:
  "(endswith rest SUFFIX \<longrightarrow> strip_wrapper (PREFIX @ rest) @ SUFFIX = rest)
   \<and> (\<not> endswith rest SUFFIX \<longrightarrow> strip_wrapper (PREFIX @ rest) = rest)
   \<and> (\<not> startswith body PREFIX \<and> endswith body SUFFIX \<longrightarrow> strip_wrapper body @ SUFFIX = body)
   \<and> (\<not> startswith body PREFIX \<and> \<not> endswith body SUFFIX \<longrightarrow> strip_wrapper body = body)
   \<and> strip_wrapper (PREFIX @ inner @ SUFFIX) = inner"
proof -
  have take_suffix: "take (length x - length SUFFIX) x @ SUFFIX = x" if "endswith x SUFFIX" for x
  proof -
    from that obtain y where "x = y @ SUFFIX"
      by (auto simp: endswith_def suffix_def)
    then show ?thesis by simp
  qed
  have a: "strip_wrapper (PREFIX @ rest) @ SUFFIX = rest" if "endswith rest SUFFIX"
    using that take_suffix [OF that] by (simp add: strip_wrapper_def startswith_append)
  have b: "strip_wrapper (PREFIX @ rest) = rest" if "\<not> endswith rest SUFFIX"
    using that by (simp add: strip_wrapper_def startswith_append)
  have c: "strip_wrapper body @ SUFFIX = body" if "\<not> startswith body PREFIX" "endswith body SUFFIX"
    using that take_suffix [OF that(2)] by (simp add: strip_wrapper_def)
  have d: "strip_wrapper body = body" if "\<not> startswith body PREFIX" "\<not> endswith body SUFFIX"
    using that by (simp add: strip_wrapper_def)
  have e: "strip_wrapper (PREFIX @ inner @ SUFFIX) = inner"
    by (simp add: strip_wrapper_def startswith_append endswith_append)
  from a b c d e show ?thesis by blast
qed

theorem strip_wrapper_exact_witness:
  "strip_wrapper ''<PRE>\<newline>hi\<newline></PRE>\<newline>\<newline>'' = ''hi''
   \<and> strip_wrapper ''<PRE>\<newline>hi\<newline></PRE>\<newline>'' = ''hi\<newline></PRE>\<newline>''
   \<and> strip_wrapper ''hi\<newline></PRE>\<newline>\<newline>'' = ''hi''
   \<and> strip_wrapper '' <PRE>\<newline>hi\<newline></PRE>'' = '' <PRE>\<newline>hi\<newline></PRE>''"
proof -
  have p: "PREFIX = ''<PRE>\<newline>''" and s: "SUFFIX = ''\<newline></PRE>\<newline>\<newline>''"
    by (simp_all add: PREFIX_def SUFFIX_def LF_def)
  have h1: "endswith ''hi\<newline></PRE>\<newline>\<newline>'' SUFFIX"
    by code_simp
  have h2: "\<not> endswith ''hi\<newline></PRE>\<newline>'' SUFFIX"
    by code_simp
  have h3: "\<not> startswith ''hi\<newline></PRE>\<newline>\<newline>'' PREFIX \<and> endswith ''hi\<newline></PRE>\<newline>\<newline>'' SUFFIX"
    by code_simp
  have h4: "\<not> startswith '' <PRE>\<newline>hi\<newline></PRE>'' PREFIX \<and> \<not> endswith '' <PRE>\<newline>hi\<newline></PRE>'' SUFFIX"
    by code_simp
  have "strip_wrapper (PREFIX @ ''hi\<newline></PRE>\<newline>\<newline>'') @ SUFFIX = ''hi\<newline></PRE>\<newline>\<newline>''"
    using strip_wrapper_exact [where rest = "''hi\<newline></PRE>\<newline>\<newline>''"] h1 by blast
  then have c1: "strip_wrapper ''<PRE>\<newline>hi\<newline></PRE>\<newline>\<newline>'' = ''hi''"
    by (simp add: p s)
  have "strip_wrapper (PREFIX @ ''hi\<newline></PRE>\<newline>'') = ''hi\<newline></PRE>\<newline>''"
    using strip_wrapper_exact [where rest = "''hi\<newline></PRE>\<newline>''"] h2 by blast
  then have c2: "strip_wrapper ''<PRE>\<newline>hi\<newline></PRE>\<newline>'' = ''hi\<newline></PRE>\<newline>''"
    by (simp add: p)
  have "strip_wrapper ''hi\<newline></PRE>\<newline>\<newline>'' @ SUFFIX = ''hi\<newline></PRE>\<newline>\<newline>''"
    using strip_wrapper_exact [where body = "''hi\<newline></PRE>\<newline>\<newline>''"] h3 by blast
  then have "strip_wrapper ''hi\<newline></PRE>\<newline>\<newline>'' @ SUFFIX = ''hi'' @ SUFFIX"
    by (simp add: s)
  then have c3: "strip_wrapper ''hi\<newline></PRE>\<newline>\<newline>'' = ''hi''"
    by (simp only: append_same_eq)
  have c4: "strip_wrapper '' <PRE>\<newline>hi\<newline></PRE>'' = '' <PRE>\<newline>hi\<newline></PRE>''"
    using strip_wrapper_exact [where body = "'' <PRE>\<newline>hi\<newline></PRE>''"] h4 by blast
  from c1 c2 c3 c4 show ?thesis
    by blast
qed

text \<open>
  C8 as stated fails: the body of an empty mail is PREFIX and SUFFIX sharing one newline.
  It ends with the literal SUFFIX, but once the prefix is removed the rest does not, and
  the closing wrapper stays.
\<close>

theorem strip_wrapper_counterexample:
  "startswith ''<PRE>\<newline></PRE>\<newline>\<newline>'' PREFIX
   \<and> endswith ''<PRE>\<newline></PRE>\<newline>\<newline>'' SUFFIX
   \<and> strip_wrapper ''<PRE>\<newline></PRE>\<newline>\<newline>'' = ''</PRE>\<newline>\<newline>''
   \<and> scrape_html_mail ''<!--X-Body-of-Message-->\<newline><PRE>\<newline></PRE>\<newline>\<newline>''
       = Inr (None, ''</PRE>\<newline>\<newline>'')"
  by code_simp

end
